theory Spec2Isabelle
  imports Main "HOL-Library.Word"
begin

section \<open>The VMATree of native memory tracking (nmt/vmatree.hpp)\<close>

text \<open>
  A VMATree stores points on the number line of addresses; each point records the change
  of state between the interval on its left and the interval on its right. This theory
  embeds the header \<^verbatim>\<open>src/hotspot/share/nmt/vmatree.hpp\<close>: the comparator of positions,
  the attribution of a point (\<open>Metadata\<close>), the packed \<open>IntervalState\<close>, the
  \<open>IntervalChange\<close> with its no-op test, the table of deltas \<open>SummaryDiff\<close> and the
  three wrappers around \<open>register_mapping\<close>. The treap and the body of
  \<open>register_mapping\<close> are defined in files that are not at hand; they are modelled from
  the specification, and every such definition says so.
\<close>

subsection \<open>Positions and their comparator\<close>

text \<open>\<^verbatim>\<open>using position = size_t\<close>: an unsigned machine word, 64 bits wide on the LP64
  platforms the sources are built for. Addition wraps around.\<close>

type_synonym position = "64 word"

text \<open>\<^verbatim>\<open>ShouldNotReachHere()\<close> stops the VM with a fatal error; it is the only way
  \<open>cmp\<close> can fail to return an \<^verbatim>\<open>int\<close>.\<close>

datatype vm_error = ShouldNotReachHere

definition cmp :: "position \<Rightarrow> position \<Rightarrow> vm_error + int" where
  "cmp a b =
     (if a < b then Inr (- 1)
      else if a = b then Inr 0
      else if a > b then Inr 1
      else Inl ShouldNotReachHere)"

subsection \<open>State types and attributions\<close>

text \<open>\<^verbatim>\<open>enum class StateType : uint8_t { Reserved, Committed, Released }\<close>. The
  enumeration has a fixed underlying type, so each of the 256 byte values is a value of
  \<open>StateType\<close> and \<^verbatim>\<open>static_cast\<close> between the two keeps the byte; three of the values
  are named.\<close>

datatype StateType = StateType (to_uint8: "8 word")

definition Reserved :: StateType where "Reserved = StateType 0"
definition Committed :: StateType where "Committed = StateType 1"
definition Released :: StateType where "Released = StateType 2"

text \<open>\<open>MEMFLAGS\<close> is declared outside the sources at hand. A value of it is taken as
  the number of its enumerator; \<^verbatim>\<open>static_cast<uint8_t>\<close> keeps the low eight bits of that
  number and \<^verbatim>\<open>static_cast<MEMFLAGS>\<close> of a byte gives the number of the byte.\<close>

type_synonym MEMFLAGS = nat

text \<open>Further declarations the header uses and the sources at hand do not hold: what
  \<^verbatim>\<open>NativeCallStackStorage::StackIndex()\<close> constructs, the enumerator \<^verbatim>\<open>mtNone\<close> and the
  number of memory types \<^verbatim>\<open>mt_number_of_types\<close>. They are parameters of the development;
  the type of stack indices is the type variable \<open>'si\<close>.\<close>

record 'si declarations =
  StackIndex_default :: 'si
  mtNone :: MEMFLAGS
  mt_number_of_types :: nat

text \<open>Modelled from the spec: \<^verbatim>\<open>NativeCallStackStorage::StackIndex::equals\<close>, of
  nmt/nmtNativeCallStackStorage.hpp, is not among the sources. The spec describes the
  call-site handle as opaque, copyable and equality-comparable; two handles are equal
  when they are the same handle.\<close>

definition StackIndex_equals :: "'si \<Rightarrow> 'si \<Rightarrow> bool" where
  "StackIndex_equals a b = (a = b)"

record 'si Metadata =
  stack_idx :: 'si
  flag :: MEMFLAGS

text \<open>\<^verbatim>\<open>Metadata() : stack_idx(), flag(mtNone) {}\<close>\<close>

definition Metadata_default :: "'si declarations \<Rightarrow> 'si Metadata" where
  "Metadata_default D = \<lparr>stack_idx = StackIndex_default D, flag = mtNone D\<rparr>"

definition Metadata_equals :: "'si Metadata \<Rightarrow> 'si Metadata \<Rightarrow> bool" where
  "Metadata_equals a b =
     (flag a = flag b \<and> StackIndex_equals (stack_idx a) (stack_idx b))"

subsection \<open>Interval states\<close>

text \<open>\<^verbatim>\<open>uint8_t type_flag[2]\<close> is the pair of its two bytes, \<open>fst\<close> for index 0 and
  \<open>snd\<close> for index 1.\<close>

record 'si IntervalState =
  type_flag :: "8 word \<times> 8 word"
  sidx :: 'si

text \<open>\<^verbatim>\<open>IntervalState() : type_flag{0,0}, sidx() {}\<close>\<close>

definition IntervalState_default :: "'si declarations \<Rightarrow> 'si IntervalState" where
  "IntervalState_default D = \<lparr>type_flag = (0, 0), sidx = StackIndex_default D\<rparr>"

text \<open>\<^verbatim>\<open>IntervalState(StateType type, Metadata data)\<close>\<close>

definition IntervalState_ctor :: "StateType \<Rightarrow> 'si Metadata \<Rightarrow> 'si IntervalState" where
  "IntervalState_ctor t data =
     \<lparr>type_flag = (to_uint8 t, of_nat (flag data)), sidx = stack_idx data\<rparr>"

definition IntervalState_type :: "'si IntervalState \<Rightarrow> StateType" where
  "IntervalState_type s = StateType (fst (type_flag s))"

definition IntervalState_flag :: "'si IntervalState \<Rightarrow> MEMFLAGS" where
  "IntervalState_flag s = unat (snd (type_flag s))"

definition IntervalState_metadata :: "'si IntervalState \<Rightarrow> 'si Metadata" where
  "IntervalState_metadata s = \<lparr>stack_idx = sidx s, flag = IntervalState_flag s\<rparr>"

definition IntervalState_stack :: "'si IntervalState \<Rightarrow> 'si" where
  "IntervalState_stack s = sidx s"

subsection \<open>Interval changes\<close>

text \<open>The members \<^verbatim>\<open>in\<close> and \<^verbatim>\<open>out\<close> of \<open>IntervalChange\<close>; \<open>in\<close> is a keyword here,
  so the fields are \<open>in_state\<close> and \<open>out_state\<close>.\<close>

record 'si IntervalChange =
  in_state :: "'si IntervalState"
  out_state :: "'si IntervalState"

definition is_noop :: "'si IntervalChange \<Rightarrow> bool" where
  "is_noop c =
     ((IntervalState_type (in_state c) = Released \<and>
       IntervalState_type (out_state c) = Released) \<or>
      (IntervalState_type (in_state c) = IntervalState_type (out_state c) \<and>
       Metadata_equals (IntervalState_metadata (in_state c))
         (IntervalState_metadata (out_state c))))"

subsection \<open>The table of deltas\<close>

text \<open>\<^verbatim>\<open>int64_t\<close> counters are 64-bit words, read as signed numbers by \<open>sint\<close>.\<close>

record SingleDiff =
  reserve :: "64 word"
  commit :: "64 word"

text \<open>\<^verbatim>\<open>SingleDiff flag[mt_number_of_types]\<close>; the field is \<open>flags\<close> here, \<open>flag\<close> being
  the field of \<open>Metadata\<close>.\<close>

record SummaryDiff =
  flags :: "SingleDiff list"

text \<open>The loop of the constructor, \<^verbatim>\<open>for (int i = 0; i < mt_number_of_types; i++)
  flag[i] = SingleDiff{0, 0}\<close>, from the value \<open>i\<close> of the counter on. The array it
  writes to is the storage of the new object. The counter is an \<^verbatim>\<open>int\<close> that starts at 0
  and stops at the number of memory types, a count far below the range of \<^verbatim>\<open>int\<close>; it
  is a natural number here.\<close>

function SummaryDiff_loop :: "nat \<Rightarrow> nat \<Rightarrow> SingleDiff list \<Rightarrow> SingleDiff list" where
  "SummaryDiff_loop n i a =
     (if i < n
      then SummaryDiff_loop n (i + 1) (a[i := \<lparr>reserve = 0, commit = 0\<rparr>])
      else a)"
  by pat_completeness auto
termination
  by (relation "measure (\<lambda>(n, i, a). n - i)") auto

declare SummaryDiff_loop.simps [simp del]

text \<open>\<^verbatim>\<open>SummaryDiff()\<close> run on storage \<open>a\<close>, an array of \<open>mt_number_of_types\<close> elements
  whose content before the constructor runs is not determined.\<close>

definition SummaryDiff_ctor :: "'si declarations \<Rightarrow> SingleDiff list \<Rightarrow> SummaryDiff" where
  "SummaryDiff_ctor D a = \<lparr>flags = SummaryDiff_loop (mt_number_of_types D) 0 a\<rparr>"

subsection \<open>The wrappers around \<open>register_mapping\<close>\<close>

text \<open>\<open>register_mapping\<close> is declared in the header and defined elsewhere; the wrappers
  take it as the parameter \<open>reg\<close>, a function of the tree and the four arguments.
  \<open>from + sz\<close> is the addition of \<^verbatim>\<open>size_t\<close>.\<close>

definition reserve_mapping ::
  "('t \<Rightarrow> position \<Rightarrow> position \<Rightarrow> StateType \<Rightarrow> 'si Metadata \<Rightarrow> 'r) \<Rightarrow>
   't \<Rightarrow> position \<Rightarrow> position \<Rightarrow> 'si Metadata \<Rightarrow> 'r" where
  "reserve_mapping reg tree from sz metadata = reg tree from (from + sz) Reserved metadata"

definition commit_mapping ::
  "('t \<Rightarrow> position \<Rightarrow> position \<Rightarrow> StateType \<Rightarrow> 'si Metadata \<Rightarrow> 'r) \<Rightarrow>
   't \<Rightarrow> position \<Rightarrow> position \<Rightarrow> 'si Metadata \<Rightarrow> 'r" where
  "commit_mapping reg tree from sz metadata = reg tree from (from + sz) Committed metadata"

definition release_mapping ::
  "'si declarations \<Rightarrow>
   ('t \<Rightarrow> position \<Rightarrow> position \<Rightarrow> StateType \<Rightarrow> 'si Metadata \<Rightarrow> 'r) \<Rightarrow>
   't \<Rightarrow> position \<Rightarrow> position \<Rightarrow> 'r" where
  "release_mapping D reg tree from sz =
     (let empty = Metadata_default D in reg tree from (from + sz) Released empty)"

section \<open>The ordered map and the tracker, from the specification\<close>

subsection \<open>The ordered map\<close>

text \<open>Modelled from the spec: the treap \<^verbatim>\<open>TreapCHeap\<close> of nmt/nmtTreap.hpp is not among
  the sources. The spec gives its contract: one value per key, \<open>insert_or_update\<close>,
  \<open>remove\<close>, \<open>find\<close>, \<open>find_closest_leq\<close> and an in-order visit that yields the pairs of
  key and value in ascending order of the keys. The map is represented by the sequence its
  in-order visit yields; balancing and priorities do not show in the contract.\<close>

type_synonym 'si VMATreap = "(position \<times> 'si IntervalChange) list"

text \<open>Modelled from the spec: \<open>insert_or_update(key, value)\<close> of the ordered map;
  inserting at an existing key overwrites.\<close>

definition insert_or_update ::
  "position \<Rightarrow> 'v \<Rightarrow> (position \<times> 'v) list \<Rightarrow> (position \<times> 'v) list" where
  "insert_or_update k v t =
     filter (\<lambda>n. fst n < k) t @ [(k, v)] @ filter (\<lambda>n. k < fst n) t"

text \<open>Modelled from the spec: \<open>remove(key)\<close> of the ordered map.\<close>

definition remove :: "position \<Rightarrow> (position \<times> 'v) list \<Rightarrow> (position \<times> 'v) list" where
  "remove k t = filter (\<lambda>n. fst n \<noteq> k) t"

text \<open>Modelled from the spec: \<open>find(key)\<close> of the ordered map, the value at the key if
  there is one.\<close>

definition find_key :: "position \<Rightarrow> (position \<times> 'v) list \<Rightarrow> 'v option" where
  "find_key k t =
     (case filter (\<lambda>n. fst n = k) t of [] \<Rightarrow> None | n # ns \<Rightarrow> Some (snd n))"

text \<open>Modelled from the spec: \<open>find_closest_leq(key)\<close> of the ordered map, the node with
  the largest key not above the given key, or none.\<close>

definition find_closest_leq ::
  "position \<Rightarrow> (position \<times> 'v) list \<Rightarrow> (position \<times> 'v) option" where
  "find_closest_leq k t =
     (case filter (\<lambda>n. fst n \<le> k) t of [] \<Rightarrow> None | n # ns \<Rightarrow> Some (last (n # ns)))"

subsection \<open>Applying a state to a range\<close>

text \<open>Modelled from the spec: the body of \<open>register_mapping\<close> (the spec's \<open>apply\<close>) is not
  among the sources; the definitions of this subsection follow the five steps of the
  spec's algorithm. Its one error that is returned is \<open>InvalidRange\<close>.\<close>

datatype apply_error = InvalidRange

text \<open>Modelled from the spec: the state before the first node and after the last one,
  \<open>Released\<close> with the empty attribution.\<close>

definition released :: "'si declarations \<Rightarrow> 'si IntervalState" where
  "released D = IntervalState_ctor Released (Metadata_default D)"

text \<open>Modelled from the spec: the state written over the range, the target state with
  the attribution, which is discarded when the target state is \<open>Released\<close>.\<close>

definition target_of :: "'si declarations \<Rightarrow> StateType \<Rightarrow> 'si Metadata \<Rightarrow> 'si IntervalState" where
  "target_of D state metadata =
     IntervalState_ctor state (if state = Released then Metadata_default D else metadata)"

text \<open>Modelled from the spec: the \<open>out\<close> state of the closest node at or before a
  position, or released when there is no such node. At the start of the range it is the
  spec's \<open>state_before_start\<close>, at its end \<open>state_after_end\<close>.\<close>

definition state_at :: "'si declarations \<Rightarrow> position \<Rightarrow> 'si VMATreap \<Rightarrow> 'si IntervalState" where
  "state_at D k tree =
     (case find_closest_leq k tree of None \<Rightarrow> released D | Some n \<Rightarrow> out_state (snd n))"

text \<open>Modelled from the spec: step 1, the node at the start of the range. A node that
  exists there keeps its \<open>in\<close>; a new node takes \<open>state_before_start\<close>. Its \<open>out\<close> is the
  target.\<close>

definition resolve_left ::
  "'si declarations \<Rightarrow> position \<Rightarrow> 'si IntervalState \<Rightarrow> 'si VMATreap \<Rightarrow> 'si IntervalChange" where
  "resolve_left D A target tree =
     (case find_key A tree of
        Some c \<Rightarrow> c\<lparr>out_state := target\<rparr>
      | None \<Rightarrow> \<lparr>in_state = state_at D A tree, out_state = target\<rparr>)"

text \<open>Modelled from the spec: step 2, the node at the end of the range, from the target
  into \<open>state_after_end\<close>, the state at the end of the range before the mutation.\<close>

definition resolve_right ::
  "'si declarations \<Rightarrow> position \<Rightarrow> 'si IntervalState \<Rightarrow> 'si VMATreap \<Rightarrow> 'si IntervalChange" where
  "resolve_right D B target tree = \<lparr>in_state = target, out_state = state_at D B tree\<rparr>"

text \<open>Modelled from the spec: step 3, the nodes with a key strictly between the start
  and the end of the range, and their removal.\<close>

definition interior ::
  "position \<Rightarrow> position \<Rightarrow> (position \<times> 'v) list \<Rightarrow> (position \<times> 'v) list" where
  "interior A B tree = filter (\<lambda>n. A < fst n \<and> fst n < B) tree"

definition clear_interior ::
  "position \<Rightarrow> position \<Rightarrow> (position \<times> 'v) list \<Rightarrow> (position \<times> 'v) list" where
  "clear_interior A B tree = fold (\<lambda>n. remove (fst n)) (interior A B tree) tree"

text \<open>Modelled from the spec: step 4, the contribution rule. A committed state counts
  for the committed and the reserved counter of its category, a reserved state for the
  reserved counter, a released state for none. The category of a state is the flag it
  records; the table has a pair of counters for each category below
  \<^verbatim>\<open>mt_number_of_types\<close> and none for another.\<close>

definition update_counters ::
  "nat \<Rightarrow> (SingleDiff \<Rightarrow> SingleDiff) \<Rightarrow> SummaryDiff \<Rightarrow> SummaryDiff" where
  "update_counters i f d =
     (if i < length (flags d) then d\<lparr>flags := (flags d)[i := f (flags d ! i)]\<rparr> else d)"

definition contribute :: "'si IntervalState \<Rightarrow> 64 word \<Rightarrow> SummaryDiff \<Rightarrow> SummaryDiff" where
  "contribute s len d =
     (if IntervalState_type s = Committed
      then update_counters (IntervalState_flag s)
             (\<lambda>e. \<lparr>reserve = reserve e + len, commit = commit e + len\<rparr>) d
      else if IntervalState_type s = Reserved
      then update_counters (IntervalState_flag s)
             (\<lambda>e. \<lparr>reserve = reserve e + len, commit = commit e\<rparr>) d
      else d)"

text \<open>Modelled from the spec: step 4, the segments of the old tree that the range
  overwrites, each with its state and its length in bytes: from position \<open>p\<close>, where the
  state is \<open>s\<close>, over the interior nodes to the end \<open>B\<close> of the range.\<close>

fun overwritten ::
  "'si IntervalState \<Rightarrow> position \<Rightarrow> position \<Rightarrow> 'si VMATreap \<Rightarrow>
   ('si IntervalState \<times> 64 word) list" where
  "overwritten s p B [] = [(s, B - p)]"
| "overwritten s p B (n # ns) =
     (s, fst n - p) # overwritten (out_state (snd n)) (fst n) B ns"

text \<open>Modelled from the spec: step 4, the delta of one call. From a zero-initialised
  table the length of every overwritten segment is subtracted under the rule of its
  state, then the length of the range is added under the rule of the target.\<close>

definition accounting ::
  "'si declarations \<Rightarrow> position \<Rightarrow> position \<Rightarrow> 'si IntervalState \<Rightarrow> 'si VMATreap \<Rightarrow>
   SummaryDiff" where
  "accounting D A B target tree =
     contribute target (B - A)
       (fold (\<lambda>(s, len). contribute s (- len))
          (overwritten (state_at D A tree) A B (interior A B tree))
          (SummaryDiff_ctor D
             (replicate (mt_number_of_types D) \<lparr>reserve = 0, commit = 0\<rparr>)))"

text \<open>Modelled from the spec: step 5. The node at the start of the range, the node at
  its end and the neighbours of the two (the last node before the start, the first node
  after the end) are checked against the no-op rule; a node that is a no-op is removed.\<close>

definition check_noop :: "position \<Rightarrow> 'si VMATreap \<Rightarrow> 'si VMATreap" where
  "check_noop k tree =
     (case find_key k tree of
        None \<Rightarrow> tree
      | Some c \<Rightarrow> if is_noop c then remove k tree else tree)"

definition neighbours ::
  "position \<Rightarrow> position \<Rightarrow> (position \<times> 'v) list \<Rightarrow> position list" where
  "neighbours A B tree =
     (case filter (\<lambda>n. fst n < A) tree of [] \<Rightarrow> [] | n # ns \<Rightarrow> [fst (last (n # ns))]) @
     (case filter (\<lambda>n. B < fst n) tree of [] \<Rightarrow> [] | n # ns \<Rightarrow> [fst n])"

definition collapse :: "position \<Rightarrow> position \<Rightarrow> 'si VMATreap \<Rightarrow> 'si VMATreap" where
  "collapse A B tree = fold check_noop ([A, B] @ neighbours A B tree) tree"

text \<open>Modelled from the spec: \<open>register_mapping\<close>, declared in the header as
  \<^verbatim>\<open>SummaryDiff register_mapping(position A, position B, StateType state, Metadata& metadata)\<close>
  and described by the spec as \<open>apply\<close>. It takes the tree and returns the tree with the
  outcome: \<open>InvalidRange\<close> and the tree as it was unless \<open>A < B\<close>, the delta and the new
  tree otherwise. Both boundaries are resolved on the tree as it is before the call.\<close>

definition register_mapping ::
  "'si declarations \<Rightarrow> 'si VMATreap \<Rightarrow> position \<Rightarrow> position \<Rightarrow> StateType \<Rightarrow> 'si Metadata \<Rightarrow>
   (apply_error + SummaryDiff) \<times> 'si VMATreap" where
  "register_mapping D tree A B state metadata =
     (if \<not> A < B then (Inl InvalidRange, tree)
      else
        let target = target_of D state metadata;
            node_A = resolve_left D A target tree;
            node_B = resolve_right D B target tree;
            delta = accounting D A B target tree;
            written = insert_or_update B node_B (insert_or_update A node_A tree)
        in (Inr delta, collapse A B (clear_interior A B written)))"

text \<open>The states of the tree: it is created empty, \<^verbatim>\<open>VMATree() : _tree() {}\<close>, the member
  \<^verbatim>\<open>_tree\<close> is private, and \<open>register_mapping\<close> is the one operation that changes it.\<close>

inductive reachable :: "'si declarations \<Rightarrow> 'si VMATreap \<Rightarrow> bool" for D where
  init: "reachable D []"
| step: "reachable D tree \<Longrightarrow> register_mapping D tree A B state metadata = (r, tree') \<Longrightarrow>
         reachable D tree'"

subsection \<open>Notions for the proofs\<close>

text \<open>Two states are the same in effect when a change from one to the other is a
  no-op.\<close>

definition same_state :: "'si IntervalState \<Rightarrow> 'si IntervalState \<Rightarrow> bool" where
  "same_state s s' = is_noop \<lparr>in_state = s, out_state = s'\<rparr>"

text \<open>From state \<open>s\<close> on, every node of the sequence is entered in the state the node
  before it leaves.\<close>

fun chain :: "'si IntervalState \<Rightarrow> 'si VMATreap \<Rightarrow> bool" where
  "chain s [] = True"
| "chain s (n # ns) = (same_state s (in_state (snd n)) \<and> chain (out_state (snd n)) ns)"

definition last_out :: "'si IntervalState \<Rightarrow> 'si VMATreap \<Rightarrow> 'si IntervalState" where
  "last_out s t = (case t of [] \<Rightarrow> s | n # ns \<Rightarrow> out_state (snd (last (n # ns))))"

definition node_unless_noop :: "position \<Rightarrow> 'si IntervalChange \<Rightarrow> 'si VMATreap" where
  "node_unless_noop k c = (if is_noop c then [] else [(k, c)])"

text \<open>The invariant of the tree: keys ascend strictly, the states chain from released
  on, and no node is a no-op.\<close>

definition tree_invariant :: "'si declarations \<Rightarrow> 'si VMATreap \<Rightarrow> bool" where
  "tree_invariant D t =
     (sorted_wrt (\<lambda>m n. fst m < fst n) t \<and> chain (released D) t \<and>
      (\<forall>n \<in> set t. \<not> is_noop (snd n)))"

section \<open>Properties of the header\<close>

subsection \<open>The comparator\<close>

text \<open>C7: \<open>AddressComparator::cmp\<close> is a total three-way comparator. For all positions
  \<open>a\<close> and \<open>b\<close> it returns \<open>-1\<close> when \<open>a < b\<close>, \<open>0\<close> when \<open>a = b\<close> and \<open>1\<close> when \<open>a > b\<close>;
  the branch of \<^verbatim>\<open>ShouldNotReachHere\<close> after the three comparisons is never taken.\<close>

theorem cmp_total:
  "cmp a b = Inr (if a < b then - 1 else if a = b then 0 else 1) \<and>
   cmp a b \<noteq> Inl ShouldNotReachHere"
  by (auto simp: cmp_def)

subsection \<open>Attributions and interval states\<close>

text \<open>C5: for all attributions \<open>a\<close> and \<open>b\<close>, \<open>Metadata::equals(a, b)\<close> holds if and only if
  the flags are equal and the stack indices are equal: both fields have to match.\<close>

theorem Metadata_equals_iff:
  "Metadata_equals a b \<longleftrightarrow> flag a = flag b \<and> stack_idx a = stack_idx b"
  by (simp add: Metadata_equals_def StackIndex_equals_def)

text \<open>C1: for every interval change \<open>c\<close>, \<open>c.is_noop()\<close> holds if and only if both states
  of \<open>c\<close> are of type \<open>Released\<close>, whatever their attributions, or the two states have the
  same type and equal metadata, that is the same flag and the same stack index. In
  particular a change from \<open>(Released, m1)\<close> to \<open>(Released, m2)\<close> is a no-op for all
  attributions \<open>m1\<close> and \<open>m2\<close>, distinct or not.\<close>

theorem is_noop_iff:
  "(is_noop c \<longleftrightarrow>
      (IntervalState_type (in_state c) = Released \<and>
       IntervalState_type (out_state c) = Released) \<or>
      (IntervalState_type (in_state c) = IntervalState_type (out_state c) \<and>
       flag (IntervalState_metadata (in_state c)) =
         flag (IntervalState_metadata (out_state c)) \<and>
       stack_idx (IntervalState_metadata (in_state c)) =
         stack_idx (IntervalState_metadata (out_state c)))) \<and>
   is_noop \<lparr>in_state = IntervalState_ctor Released m1,
            out_state = IntervalState_ctor Released m2\<rparr>"
  by (simp add: is_noop_def Metadata_equals_def StackIndex_equals_def IntervalState_type_def
      IntervalState_ctor_def Released_def)

text \<open>C8: a default-constructed \<open>IntervalState\<close> has the type \<open>Reserved\<close>, the
  enumerator of byte 0, and the flag of number 0. Its type is not \<open>Released\<close>: the
  default constructor does not give the unmapped state.\<close>

theorem IntervalState_default_is_Reserved:
  "IntervalState_type (IntervalState_default D) = Reserved \<and>
   to_uint8 Reserved = 0 \<and>
   IntervalState_flag (IntervalState_default D) = 0 \<and>
   IntervalState_type (IntervalState_default D) \<noteq> Released"
  by (simp add: IntervalState_type_def IntervalState_default_def IntervalState_flag_def
      Reserved_def Released_def)

text \<open>C10: an \<open>IntervalState\<close> gives back the arguments of its constructor. For every
  state type \<open>t\<close> and every attribution \<open>m\<close> whose flag fits in one byte, the state
  \<open>s = IntervalState(t, m)\<close> has \<open>s.type() = t\<close> and \<open>s.flag() = m.flag\<close>, and
  \<open>Metadata::equals(s.metadata(), m)\<close> holds.\<close>

theorem IntervalState_round_trip:
  assumes "flag m < 256"
  shows "IntervalState_type (IntervalState_ctor t m) = t \<and>
         IntervalState_flag (IntervalState_ctor t m) = flag m \<and>
         Metadata_equals (IntervalState_metadata (IntervalState_ctor t m)) m"
  using assms
  by (simp add: IntervalState_type_def IntervalState_ctor_def IntervalState_flag_def
      Metadata_equals_def StackIndex_equals_def IntervalState_metadata_def unat_of_nat)

theorem IntervalState_round_trip_witness:
  "flag \<lparr>stack_idx = 7 :: nat, flag = 200\<rparr> < 256 \<and>
   IntervalState_type (IntervalState_ctor Committed \<lparr>stack_idx = 7 :: nat, flag = 200\<rparr>) =
     Committed \<and>
   IntervalState_flag (IntervalState_ctor Committed \<lparr>stack_idx = 7 :: nat, flag = 200\<rparr>) = 200 \<and>
   Metadata_equals
     (IntervalState_metadata (IntervalState_ctor Committed \<lparr>stack_idx = 7 :: nat, flag = 200\<rparr>))
     \<lparr>stack_idx = 7, flag = 200\<rparr>"
  using IntervalState_round_trip [of "\<lparr>stack_idx = 7 :: nat, flag = 200\<rparr>" Committed]
  by simp

subsection \<open>The table of deltas\<close>

lemma SummaryDiff_loop_length: "length (SummaryDiff_loop n i a) = length a"
proof (induction n i a rule: SummaryDiff_loop.induct)
  case (1 n i a)
  then show ?case by (subst SummaryDiff_loop.simps) simp
qed

lemma SummaryDiff_loop_nth:
  "j < length a \<Longrightarrow>
   SummaryDiff_loop n i a ! j =
     (if i \<le> j \<and> j < n then \<lparr>reserve = 0, commit = 0\<rparr> else a ! j)"
proof (induction n i a rule: SummaryDiff_loop.induct)
  case (1 n i a)
  show ?case
  proof (cases "i < n")
    case True
    with 1 show ?thesis
      by (subst SummaryDiff_loop.simps) (auto simp: nth_list_update)
  next
    case False
    then show ?thesis by (subst SummaryDiff_loop.simps) auto
  qed
qed

lemma SummaryDiff_loop_replicate:
  "length a = n \<Longrightarrow> SummaryDiff_loop n 0 a = replicate n \<lparr>reserve = 0, commit = 0\<rparr>"
  by (rule nth_equalityI) (simp_all add: SummaryDiff_loop_length SummaryDiff_loop_nth)

text \<open>C6: a newly constructed \<open>SummaryDiff\<close> is all zero. Whatever its storage of
  \<^verbatim>\<open>mt_number_of_types\<close> elements held before, after the constructor every index \<open>i\<close> below
  \<^verbatim>\<open>mt_number_of_types\<close> has \<open>flag[i].reserve = 0\<close> and \<open>flag[i].commit = 0\<close>.\<close>

theorem SummaryDiff_ctor_zero:
  assumes "length a = mt_number_of_types D" and "i < mt_number_of_types D"
  shows "reserve (flags (SummaryDiff_ctor D a) ! i) = 0 \<and>
         commit (flags (SummaryDiff_ctor D a) ! i) = 0"
  using assms by (simp add: SummaryDiff_ctor_def SummaryDiff_loop_nth)

theorem SummaryDiff_ctor_zero_witness:
  "length [\<lparr>reserve = 5, commit = 6\<rparr>, \<lparr>reserve = 7, commit = 8\<rparr>, \<lparr>reserve = 9, commit = 1\<rparr>] =
     mt_number_of_types \<lparr>StackIndex_default = 0 :: nat, mtNone = 2, mt_number_of_types = 3\<rparr> \<and>
   1 < mt_number_of_types \<lparr>StackIndex_default = 0 :: nat, mtNone = 2, mt_number_of_types = 3\<rparr> \<and>
   reserve (flags (SummaryDiff_ctor
      \<lparr>StackIndex_default = 0 :: nat, mtNone = 2, mt_number_of_types = 3\<rparr>
      [\<lparr>reserve = 5, commit = 6\<rparr>, \<lparr>reserve = 7, commit = 8\<rparr>, \<lparr>reserve = 9, commit = 1\<rparr>]) ! 1) = 0 \<and>
   commit (flags (SummaryDiff_ctor
      \<lparr>StackIndex_default = 0 :: nat, mtNone = 2, mt_number_of_types = 3\<rparr>
      [\<lparr>reserve = 5, commit = 6\<rparr>, \<lparr>reserve = 7, commit = 8\<rparr>, \<lparr>reserve = 9, commit = 1\<rparr>]) ! 1) = 0"
  using SummaryDiff_ctor_zero
    [of "[\<lparr>reserve = 5, commit = 6\<rparr>, \<lparr>reserve = 7, commit = 8\<rparr>, \<lparr>reserve = 9, commit = 1\<rparr>]"
      "\<lparr>StackIndex_default = 0 :: nat, mtNone = 2, mt_number_of_types = 3\<rparr>" 1]
  by simp

subsection \<open>The wrappers\<close>

lemma position_add_wraps:
  "(from :: position) + sz = word_of_nat ((unat from + unat sz) mod 2 ^ 64)"
proof -
  have "unat (from + sz) = (unat from + unat sz) mod 2 ^ 64"
    by (simp add: unat_word_ariths)
  then have "word_of_nat ((unat from + unat sz) mod 2 ^ 64) =
      (word_of_nat (unat (from + sz)) :: position)"
    by simp
  then show ?thesis by simp
qed

lemma position_one_less_max: "(1 :: position) < - 1"
  by (simp add: word_less_def unsigned_minus_1_eq_mask mask_eq_exp_minus_1)



text \<open>C9: the wrappers compute the end of the range with the wrap-around of
  \<^verbatim>\<open>size_t\<close>. For all \<open>from\<close> and \<open>sz\<close>, \<open>reserve_mapping\<close>, \<open>commit_mapping\<close> and
  \<open>release_mapping\<close> call \<open>register_mapping\<close> with the end \<open>(from + sz) mod 2^64\<close>. At the
  maximum position \<open>from = 2^64 - 1\<close> (the word \<open>- 1\<close>) and \<open>sz = 2\<close> the end passed is
  \<open>1\<close>, strictly below the start.\<close>

theorem wrappers_wrap_around:
  "reserve_mapping reg tree from sz metadata =
     reg tree from (word_of_nat ((unat from + unat sz) mod 2 ^ 64)) Reserved metadata \<and>
   commit_mapping reg tree from sz metadata =
     reg tree from (word_of_nat ((unat from + unat sz) mod 2 ^ 64)) Committed metadata \<and>
   release_mapping D reg tree from sz =
     reg tree from (word_of_nat ((unat from + unat sz) mod 2 ^ 64)) Released
       (Metadata_default D) \<and>
   reserve_mapping reg tree (- 1) 2 metadata = reg tree (- 1) 1 Reserved metadata \<and>
   commit_mapping reg tree (- 1) 2 metadata = reg tree (- 1) 1 Committed metadata \<and>
   release_mapping D reg tree (- 1) 2 = reg tree (- 1) 1 Released (Metadata_default D) \<and>
   (1 :: position) < - 1"
  unfolding reserve_mapping_def commit_mapping_def release_mapping_def Let_def
  using position_add_wraps [of "from" sz] position_one_less_max by simp

section \<open>Properties of the tracker\<close>

text \<open>C3: a call of \<open>register_mapping\<close> whose range start is not below its range end,
  the two being equal included, fails with \<open>InvalidRange\<close> and leaves the tree as it
  was; the call produces no \<open>SummaryDiff\<close>.\<close>

theorem register_mapping_invalid_range:
  assumes "B \<le> A"
  shows "register_mapping D tree A B state metadata = (Inl InvalidRange, tree)"
proof -
  from assms have "\<not> A < B" by simp
  then show ?thesis by (simp add: register_mapping_def)
qed

theorem register_mapping_invalid_range_witness:
  "(50 :: position) \<le> 50 \<and> (10 :: position) \<le> 50 \<and>
   register_mapping \<lparr>StackIndex_default = 0 :: nat, mtNone = 3, mt_number_of_types = 4\<rparr>
     [(0, \<lparr>in_state = \<lparr>type_flag = (2, 3), sidx = 0\<rparr>,
           out_state = \<lparr>type_flag = (0, 1), sidx = 7\<rparr>\<rparr>),
      (100, \<lparr>in_state = \<lparr>type_flag = (0, 1), sidx = 7\<rparr>,
             out_state = \<lparr>type_flag = (2, 3), sidx = 0\<rparr>\<rparr>)]
     50 50 Committed \<lparr>stack_idx = 9, flag = 2\<rparr> =
   (Inl InvalidRange,
     [(0, \<lparr>in_state = \<lparr>type_flag = (2, 3), sidx = 0\<rparr>,
           out_state = \<lparr>type_flag = (0, 1), sidx = 7\<rparr>\<rparr>),
      (100, \<lparr>in_state = \<lparr>type_flag = (0, 1), sidx = 7\<rparr>,
             out_state = \<lparr>type_flag = (2, 3), sidx = 0\<rparr>\<rparr>)]) \<and>
   register_mapping \<lparr>StackIndex_default = 0 :: nat, mtNone = 3, mt_number_of_types = 4\<rparr>
     [] 50 10 Reserved \<lparr>stack_idx = 9, flag = 2\<rparr> = (Inl InvalidRange, [])"
  using
    register_mapping_invalid_range [of 50 50
      "\<lparr>StackIndex_default = 0 :: nat, mtNone = 3, mt_number_of_types = 4\<rparr>"
      "[(0, \<lparr>in_state = \<lparr>type_flag = (2, 3), sidx = 0\<rparr>,
             out_state = \<lparr>type_flag = (0, 1), sidx = 7\<rparr>\<rparr>),
        (100, \<lparr>in_state = \<lparr>type_flag = (0, 1), sidx = 7\<rparr>,
               out_state = \<lparr>type_flag = (2, 3), sidx = 0\<rparr>\<rparr>)]"
      Committed "\<lparr>stack_idx = 9, flag = 2\<rparr>"]
    register_mapping_invalid_range [of 10 50
      "\<lparr>StackIndex_default = 0 :: nat, mtNone = 3, mt_number_of_types = 4\<rparr>"
      "[]" Reserved "\<lparr>stack_idx = 9, flag = 2\<rparr>"]
  by simp

subsection \<open>States that are the same in effect\<close>

lemma same_state_refl: "same_state s s"
  by (simp add: same_state_def is_noop_def Metadata_equals_def StackIndex_equals_def)

lemma same_state_sym: "same_state s s' \<Longrightarrow> same_state s' s"
  by (auto simp: same_state_def is_noop_def Metadata_equals_def StackIndex_equals_def)

lemma same_state_trans: "same_state s s' \<Longrightarrow> same_state s' s'' \<Longrightarrow> same_state s s''"
  by (auto simp: same_state_def is_noop_def Metadata_equals_def StackIndex_equals_def)

lemma is_noop_same_state: "is_noop c = same_state (in_state c) (out_state c)"
  by (simp add: same_state_def is_noop_def)

subsection \<open>The last state of a sequence of nodes\<close>

lemma last_out_Nil: "last_out s [] = s"
  by (simp add: last_out_def)

lemma last_out_Cons: "last_out s (n # ns) = last_out (out_state (snd n)) ns"
  by (cases ns) (simp_all add: last_out_def)

lemma last_out_append: "last_out s (xs @ ys) = last_out (last_out s xs) ys"
  by (induction xs arbitrary: s) (simp_all add: last_out_Nil last_out_Cons)

lemma state_at_last_out:
  "state_at D k t = last_out (released D) (filter (\<lambda>n. fst n \<le> k) t)"
  by (simp add: state_at_def find_closest_leq_def last_out_def split: list.split)

lemma chain_append: "chain s (xs @ ys) = (chain s xs \<and> chain (last_out s xs) ys)"
  by (induction xs arbitrary: s) (simp_all add: last_out_Nil last_out_Cons)

lemma chain_same: "same_state s s' \<Longrightarrow> chain s xs \<Longrightarrow> chain s' xs"
  by (cases xs) (auto intro: same_state_trans same_state_sym)

subsection \<open>Sorted sequences split at a key\<close>

lemma sorted_filter_split:
  assumes "sorted_wrt R t" and "\<And>m n. R m n \<Longrightarrow> P n \<Longrightarrow> P m"
  shows "filter P t @ filter (\<lambda>n. \<not> P n) t = t"
  using assms(1)
proof (induction t)
  case Nil
  then show ?case by simp
next
  case (Cons a t)
  show ?case
  proof (cases "P a")
    case True
    with Cons show ?thesis by simp
  next
    case False
    with Cons.prems assms(2) have "\<forall>n \<in> set t. \<not> P n" by auto
    with False show ?thesis by simp
  qed
qed

lemma sorted_split_less:
  "sorted_wrt (\<lambda>m n. fst m < fst n) t \<Longrightarrow>
   filter (\<lambda>n. fst n < (k :: position)) t @ filter (\<lambda>n. \<not> fst n < k) t = t"
  using sorted_filter_split [of "\<lambda>m n. fst m < fst n" t "\<lambda>n. fst n < k"]
  by auto

lemma sorted_split_le:
  "sorted_wrt (\<lambda>m n. fst m < fst n) t \<Longrightarrow>
   filter (\<lambda>n. fst n \<le> (k :: position)) t @ filter (\<lambda>n. k < fst n) t = t"
  using sorted_filter_split [of "\<lambda>m n. fst m < fst n" t "\<lambda>n. fst n \<le> k"]
  by (simp add: not_le)

lemma chain_before:
  assumes "sorted_wrt (\<lambda>m n. fst m < fst n) t" and "chain s t"
  shows "chain s (filter (\<lambda>n. fst n < (k :: position)) t)"
  using chain_append [of s "filter (\<lambda>n. fst n < k) t" "filter (\<lambda>n. \<not> fst n < k) t"]
    sorted_split_less [OF assms(1), of k] assms(2)
  by simp

lemma chain_after:
  assumes "sorted_wrt (\<lambda>m n. fst m < fst n) t" and "chain s t"
  shows "chain (last_out s (filter (\<lambda>n. fst n \<le> (k :: position)) t)) (filter (\<lambda>n. k < fst n) t)"
  using chain_append [of s "filter (\<lambda>n. fst n \<le> k) t" "filter (\<lambda>n. k < fst n) t"]
    sorted_split_le [OF assms(1), of k] assms(2)
  by simp

lemma find_key_Nil: "find_key k [] = None"
  by (simp add: find_key_def)

lemma find_key_Cons:
  "find_key k (n # ns) = (if fst n = k then Some (snd n) else find_key k ns)"
  by (simp add: find_key_def)

lemma find_key_None: "find_key k t = None \<longleftrightarrow> (\<forall>n \<in> set t. fst n \<noteq> k)"
  by (induction t) (auto simp: find_key_Nil find_key_Cons)

lemma find_key_chain:
  assumes "sorted_wrt (\<lambda>m n. fst m < fst n) t" and "chain s t" and "find_key k t = Some c"
  shows "same_state (last_out s (filter (\<lambda>n. fst n < k) t)) (in_state c)"
  using assms
proof (induction t arbitrary: s)
  case Nil
  then show ?case by (simp add: find_key_Nil)
next
  case (Cons n t)
  consider (eq) "fst n = k" | (lt) "fst n < k" | (gt) "k < fst n" by fastforce
  then show ?case
  proof cases
    case eq
    with Cons.prems have "\<forall>m \<in> set t. \<not> fst m < k" by auto
    with eq Cons.prems show ?thesis by (simp add: find_key_Cons last_out_Nil)
  next
    case lt
    then have "fst n \<noteq> k" by simp
    with lt Cons show ?thesis by (simp add: find_key_Cons last_out_Cons)
  next
    case gt
    with Cons.prems have "\<forall>m \<in> set (n # t). fst m \<noteq> k" by auto
    then have "find_key k (n # t) = None" by (simp only: find_key_None)
    with Cons.prems show ?thesis by simp
  qed
qed

subsection \<open>The tree after the nodes are written and the interior is cleared\<close>

lemma fold_remove:
  "fold (\<lambda>n. remove (fst n)) xs t = filter (\<lambda>n. fst n \<notin> fst ` set xs) t"
proof (induction xs arbitrary: t)
  case Nil
  show ?case by simp
next
  case (Cons x xs)
  have "filter (\<lambda>n. fst n \<noteq> fst x \<and> fst n \<notin> fst ` set xs) t =
        filter (\<lambda>n. fst n \<notin> fst ` set (x # xs)) t"
    by (rule filter_cong) auto
  with Cons show ?case by (simp add: remove_def)
qed

lemma clear_interior_filter:
  "clear_interior A B t = filter (\<lambda>n. \<not> (A < fst n \<and> fst n < B)) t"
  unfolding clear_interior_def interior_def fold_remove
  by (rule filter_cong) force+

lemma written_cleared:
  assumes "A < B"
  shows "clear_interior A B (insert_or_update B b (insert_or_update A a t)) =
         filter (\<lambda>n. fst n < A) t @ [(A, a), (B, b)] @ filter (\<lambda>n. B < fst n) t"
proof -
  define L where "L = filter (\<lambda>n. fst n < A) t"
  define M where "M = filter (\<lambda>n. A < fst n \<and> fst n < B) t"
  define R where "R = filter (\<lambda>n. B < fst n) t"
  have kL: "\<forall>n \<in> set L. fst n < A" and kM: "\<forall>n \<in> set M. A < fst n \<and> fst n < B"
    and kR: "\<forall>n \<in> set R. B < fst n"
    by (simp_all add: L_def M_def R_def)
  have nBA: "\<not> B < A" using assms by simp
  have 1: "filter (\<lambda>n. fst n < B) L = L"
    by (rule filter_True) (use kL assms in auto)
  have 2: "filter (\<lambda>n. B < fst n) L = []"
    by (rule filter_False) (use kL assms in auto)
  have 3: "filter (\<lambda>n. fst n < B) (filter (\<lambda>n. A < fst n) t) = M"
    by (simp add: M_def)
  have 4: "filter (\<lambda>n. B < fst n) (filter (\<lambda>n. A < fst n) t) = R"
    unfolding R_def filter_filter by (rule filter_cong) (use assms in auto)
  have w: "insert_or_update B b (insert_or_update A a t) = L @ (A, a) # M @ (B, b) # R"
    unfolding insert_or_update_def L_def [symmetric]
    by (simp only: filter_append filter.simps 1 2 3 4 assms nBA if_True if_False
        append_Nil append_Nil2 append_Cons append_assoc fst_conv)
  have 5: "filter (\<lambda>n. \<not> (A < fst n \<and> fst n < B)) L = L"
    by (rule filter_True) (use kL in auto)
  have 6: "filter (\<lambda>n. \<not> (A < fst n \<and> fst n < B)) M = []"
    by (rule filter_False) (use kM in auto)
  have 7: "filter (\<lambda>n. \<not> (A < fst n \<and> fst n < B)) R = R"
    by (rule filter_True) (use kR in auto)
  have nAA: "\<not> A < A" and nBB: "\<not> B < B" by simp_all
  show ?thesis
    unfolding w clear_interior_filter L_def [symmetric] R_def [symmetric]
    by (simp only: filter_append filter.simps 5 6 7 nAA nBB fst_conv simp_thms if_True if_False
        append_Nil append_Nil2 append_Cons append_assoc)
qed

subsection \<open>Collapsing the no-ops\<close>

lemma check_noop_unchanged:
  assumes "\<forall>n \<in> set t. fst n = k \<longrightarrow> \<not> is_noop (snd n)"
  shows "check_noop k t = t"
proof (cases "find_key k t")
  case None
  then show ?thesis by (simp add: check_noop_def)
next
  case (Some c)
  then have "\<exists>n \<in> set t. fst n = k \<and> snd n = c"
    by (induction t) (auto simp: find_key_Nil find_key_Cons split: if_splits)
  with assms have "\<not> is_noop c" by auto
  with Some show ?thesis by (simp add: check_noop_def)
qed

lemma fold_check_noop_unchanged:
  assumes "\<forall>k \<in> set ks. \<forall>n \<in> set t. fst n = k \<longrightarrow> \<not> is_noop (snd n)"
  shows "fold check_noop ks t = t"
  using assms by (induction ks) (simp_all add: check_noop_unchanged)

lemma find_key_append:
  "find_key k (xs @ ys) = (case find_key k xs of None \<Rightarrow> find_key k ys | Some c \<Rightarrow> Some c)"
  by (induction xs) (simp_all add: find_key_Nil find_key_Cons)

lemma check_noop_at:
  assumes "\<forall>n \<in> set xs. fst n \<noteq> k" and "\<forall>n \<in> set ys. fst n \<noteq> k"
  shows "check_noop k (xs @ (k, c) # ys) = xs @ node_unless_noop k c @ ys"
proof -
  from assms(1) have "find_key k xs = None" by (simp add: find_key_None)
  then have f: "find_key k (xs @ (k, c) # ys) = Some c"
    by (simp add: find_key_append find_key_Cons)
  have "filter (\<lambda>n. fst n \<noteq> k) xs = xs" "filter (\<lambda>n. fst n \<noteq> k) ys = ys"
    using assms by (simp_all add: filter_id_conv)
  then show ?thesis
    by (simp add: check_noop_def f remove_def node_unless_noop_def)
qed

lemma key_of_last_in_keys:
  "set (case xs of [] \<Rightarrow> [] | n # ns \<Rightarrow> [fst (last (n # ns))]) \<subseteq> fst ` set xs"
proof (cases xs)
  case Nil
  then show ?thesis by simp
next
  case (Cons n ns)
  have "last (n # ns) \<in> set (n # ns)" by (rule last_in_set) simp
  then have "fst (last (n # ns)) \<in> fst ` set (n # ns)" by (rule imageI)
  then show ?thesis unfolding Cons by (simp only: list.case list.set) simp
qed

lemma key_of_first_in_keys:
  "set (case xs of [] \<Rightarrow> [] | n # ns \<Rightarrow> [fst n]) \<subseteq> fst ` set xs"
  by (cases xs) simp_all

lemma neighbours_outside:
  assumes "k \<in> set (neighbours A B t)"
  shows "k < A \<or> B < k"
proof -
  from assms have
    "k \<in> fst ` set (filter (\<lambda>n. fst n < A) t) \<or> k \<in> fst ` set (filter (\<lambda>n. B < fst n) t)"
    unfolding neighbours_def set_append
    using key_of_last_in_keys [of "filter (\<lambda>n. fst n < A) t"]
      key_of_first_in_keys [of "filter (\<lambda>n. B < fst n) t"]
    by blast
  then show ?thesis by auto
qed

lemma collapse_shape:
  assumes L: "\<forall>n \<in> set L. fst n < A \<and> \<not> is_noop (snd n)"
    and R: "\<forall>n \<in> set R. B < fst n \<and> \<not> is_noop (snd n)"
    and AB: "A < B"
  shows "collapse A B (L @ [(A, a), (B, b)] @ R) =
         L @ node_unless_noop A a @ node_unless_noop B b @ R"
proof -
  let ?T = "L @ node_unless_noop A a @ node_unless_noop B b @ R"
  have "check_noop A (L @ (A, a) # ((B, b) # R)) = L @ node_unless_noop A a @ ((B, b) # R)"
    by (rule check_noop_at) (use L R AB in auto)
  moreover have "check_noop B ((L @ node_unless_noop A a) @ (B, b) # R) =
      (L @ node_unless_noop A a) @ node_unless_noop B b @ R"
    by (rule check_noop_at) (use L R AB in \<open>auto simp: node_unless_noop_def\<close>)
  ultimately have 1: "check_noop B (check_noop A (L @ [(A, a), (B, b)] @ R)) = ?T"
    by simp
  have "fold check_noop (neighbours A B (L @ [(A, a), (B, b)] @ R)) ?T = ?T"
  proof (rule fold_check_noop_unchanged, intro ballI impI)
    fix k n
    assume "k \<in> set (neighbours A B (L @ [(A, a), (B, b)] @ R))"
      and n: "n \<in> set ?T" and "fst n = k"
    then have "fst n < A \<or> B < fst n" using neighbours_outside by blast
    with n L R AB show "\<not> is_noop (snd n)"
      by (auto simp: node_unless_noop_def split: if_splits)
  qed
  with 1 show ?thesis by (simp add: collapse_def)
qed

lemma register_mapping_tree:
  assumes "A < B" and "\<forall>n \<in> set t. \<not> is_noop (snd n)"
  shows "snd (register_mapping D t A B state metadata) =
         filter (\<lambda>n. fst n < A) t @
         node_unless_noop A (resolve_left D A (target_of D state metadata) t) @
         node_unless_noop B (resolve_right D B (target_of D state metadata) t) @
         filter (\<lambda>n. B < fst n) t"
proof -
  have "collapse A B (filter (\<lambda>n. fst n < A) t @ [(A, a), (B, b)] @ filter (\<lambda>n. B < fst n) t) =
        filter (\<lambda>n. fst n < A) t @ node_unless_noop A a @ node_unless_noop B b @
        filter (\<lambda>n. B < fst n) t" for a b
    by (rule collapse_shape) (use assms in auto)
  with assms(1) show ?thesis
    by (simp add: register_mapping_def Let_def written_cleared)
qed

subsection \<open>The two nodes a call writes\<close>

lemma out_resolve_left: "out_state (resolve_left D A target t) = target"
  by (simp add: resolve_left_def split: option.split)

lemma in_resolve_left:
  assumes "sorted_wrt (\<lambda>m n. fst m < fst n) t" and "chain (released D) t"
  shows "same_state (last_out (released D) (filter (\<lambda>n. fst n < A) t))
           (in_state (resolve_left D A target t))"
proof (cases "find_key A t")
  case None
  then have "\<forall>n \<in> set t. fst n \<noteq> A" by (simp add: find_key_None)
  then have "filter (\<lambda>n. fst n \<le> A) t = filter (\<lambda>n. fst n < A) t"
    by (intro filter_cong) auto
  with None show ?thesis
    by (simp add: resolve_left_def state_at_last_out same_state_refl)
next
  case (Some c)
  with find_key_chain [OF assms this] show ?thesis
    by (simp add: resolve_left_def)
qed

lemma chain_written:
  assumes cL: "chain s0 L"
    and ia: "same_state (last_out s0 L) (in_state a)"
    and ab: "same_state (out_state a) (in_state b)"
    and cR: "chain (out_state b) R"
  shows "chain s0 (L @ node_unless_noop A a @ node_unless_noop B b @ R)"
proof -
  have na: "same_state (in_state a) (out_state a)" if "is_noop a"
    using that by (simp add: is_noop_same_state)
  have nb: "same_state (in_state b) (out_state b)" if "is_noop b"
    using that by (simp add: is_noop_same_state)
  have "chain (last_out s0 L) (node_unless_noop A a @ node_unless_noop B b @ R)"
  proof (cases "is_noop a")
    case a: True
    show ?thesis
    proof (cases "is_noop b")
      case b: True
      have "same_state (out_state b) (last_out s0 L)"
        using ia ab na [OF a] nb [OF b] by (meson same_state_sym same_state_trans)
      with cR a b show ?thesis by (simp add: node_unless_noop_def chain_same)
    next
      case b: False
      have "same_state (last_out s0 L) (in_state b)"
        using ia ab na [OF a] by (meson same_state_trans)
      with cR a b show ?thesis by (simp add: node_unless_noop_def)
    qed
  next
    case a: False
    show ?thesis
    proof (cases "is_noop b")
      case b: True
      have "same_state (out_state b) (out_state a)"
        using ab nb [OF b] by (meson same_state_sym same_state_trans)
      then have "chain (out_state a) R" using cR by (rule chain_same)
      with ia a b show ?thesis by (simp add: node_unless_noop_def)
    next
      case b: False
      with ia ab cR a show ?thesis by (simp add: node_unless_noop_def)
    qed
  qed
  with cL show ?thesis by (simp add: chain_append)
qed

subsection \<open>The invariant holds in every state of the tree\<close>

lemma tree_invariant_register_mapping:
  assumes "tree_invariant D t"
  shows "tree_invariant D (snd (register_mapping D t A B state metadata))"
proof (cases "A < B")
  case False
  with assms show ?thesis by (simp add: register_mapping_def)
next
  case True
  define target where "target = target_of D state metadata"
  define a where "a = resolve_left D A target t"
  define b where "b = resolve_right D B target t"
  define L where "L = filter (\<lambda>n. fst n < A) t"
  define R where "R = filter (\<lambda>n. B < fst n) t"
  from assms have srt: "sorted_wrt (\<lambda>m n. fst m < fst n) t"
    and ch: "chain (released D) t" and nn: "\<forall>n \<in> set t. \<not> is_noop (snd n)"
    by (simp_all add: tree_invariant_def)
  have shape: "snd (register_mapping D t A B state metadata) =
      L @ node_unless_noop A a @ node_unless_noop B b @ R"
    unfolding L_def R_def a_def b_def target_def
    by (rule register_mapping_tree [OF True nn])
  have kL: "\<forall>n \<in> set L. fst n < A" and kR: "\<forall>n \<in> set R. B < fst n"
    by (simp_all add: L_def R_def)
  have sL: "sorted_wrt (\<lambda>m n. fst m < fst n) L" and sR: "sorted_wrt (\<lambda>m n. fst m < fst n) R"
    unfolding L_def R_def using srt by (simp_all add: sorted_wrt_filter)
  have kLR: "\<forall>m \<in> set L. \<forall>n \<in> set R. fst m < fst n"
  proof (intro ballI)
    fix m n
    assume "m \<in> set L" and "n \<in> set R"
    with kL kR have "fst m < A" and "B < fst n" by simp_all
    with True show "fst m < fst n" by simp
  qed
  have kLB: "\<forall>m \<in> set L. fst m < B" using kL True by auto
  have kAR: "\<forall>n \<in> set R. A < fst n" using kR True by auto
  have 1: "sorted_wrt (\<lambda>m n. fst m < fst n) (L @ node_unless_noop A a @ node_unless_noop B b @ R)"
    using sL sR kL kR kLR kLB kAR True
    by (simp add: sorted_wrt_append node_unless_noop_def)
  have 2: "\<forall>n \<in> set (L @ node_unless_noop A a @ node_unless_noop B b @ R). \<not> is_noop (snd n)"
    using nn by (auto simp: L_def R_def node_unless_noop_def split: if_splits)
  have "chain (released D) L"
    unfolding L_def by (rule chain_before [OF srt ch])
  moreover have "same_state (last_out (released D) L) (in_state a)"
    unfolding L_def a_def by (rule in_resolve_left [OF srt ch])
  moreover have "same_state (out_state a) (in_state b)"
    by (simp add: a_def b_def out_resolve_left resolve_right_def same_state_refl)
  moreover have "chain (out_state b) R"
    unfolding R_def b_def using chain_after [OF srt ch, of B]
    by (simp add: resolve_right_def state_at_last_out)
  ultimately have 3: "chain (released D) (L @ node_unless_noop A a @ node_unless_noop B b @ R)"
    by (rule chain_written)
  from 1 2 3 show ?thesis unfolding shape tree_invariant_def by simp
qed

lemma reachable_tree_invariant: "reachable D t \<Longrightarrow> tree_invariant D t"
proof (induction rule: reachable.induct)
  case init
  show ?case by (simp add: tree_invariant_def)
next
  case (step tree A B state metadata r tree')
  from step.hyps(2) have "tree' = snd (register_mapping D tree A B state metadata)" by simp
  with step.IH show ?case by (simp add: tree_invariant_register_mapping)
qed

subsection \<open>Applying the same state to the same range again\<close>

lemma update_counters_cancel:
  assumes "\<And>e. f (g e) = e"
  shows "update_counters i f (update_counters i g d) = d"
  by (simp add: update_counters_def assms)

lemma contribute_cancel:
  assumes "same_state s s'"
  shows "contribute s' len (contribute s (- len) d) = d"
proof -
  from assms consider
    (rel) "IntervalState_type s = Released" "IntervalState_type s' = Released" |
    (same) "IntervalState_type s = IntervalState_type s'"
      "IntervalState_flag s = IntervalState_flag s'"
    by (auto simp: same_state_def is_noop_def Metadata_equals_def IntervalState_metadata_def)
  then show ?thesis
  proof cases
    case rel
    then show ?thesis
      by (simp add: contribute_def Released_def Committed_def Reserved_def)
  next
    case same
    have 1: "update_counters i (\<lambda>e. \<lparr>reserve = reserve e + len, commit = commit e + len\<rparr>)
        (update_counters i (\<lambda>e. \<lparr>reserve = reserve e - len, commit = commit e - len\<rparr>) d) = d"
      for i
      by (rule update_counters_cancel) simp
    have 2: "update_counters i (\<lambda>e. \<lparr>reserve = reserve e + len, commit = commit e\<rparr>)
        (update_counters i (\<lambda>e. \<lparr>reserve = reserve e - len, commit = commit e\<rparr>) d) = d"
      for i
      by (rule update_counters_cancel) simp
    consider (committed) "IntervalState_type s' = Committed" |
      (reserved) "IntervalState_type s' \<noteq> Committed" "IntervalState_type s' = Reserved" |
      (other) "IntervalState_type s' \<noteq> Committed" "IntervalState_type s' \<noteq> Reserved"
      by blast
    then show ?thesis
    proof cases
      case committed
      with same show ?thesis by (simp add: contribute_def 1)
    next
      case reserved
      with same show ?thesis by (simp add: contribute_def 2)
    next
      case other
      with same show ?thesis by (simp add: contribute_def)
    qed
  qed
qed

lemma zero_table:
  "SummaryDiff_ctor D (replicate (mt_number_of_types D) \<lparr>reserve = 0, commit = 0\<rparr>) =
   \<lparr>flags = replicate (mt_number_of_types D) \<lparr>reserve = 0, commit = 0\<rparr>\<rparr>"
  by (simp add: SummaryDiff_ctor_def SummaryDiff_loop_replicate)

lemma filter_parts:
  assumes "\<forall>n \<in> set L. P n = pl" and "\<forall>n \<in> set R. P n = pr"
  shows "filter P (L @ X @ Y @ R) =
         (if pl then L else []) @ filter P X @ filter P Y @ (if pr then R else [])"
  using assms by (cases pl; cases pr) simp_all

lemma second_register_mapping:
  assumes inv: "tree_invariant D t" and AB: "A < B"
  shows "register_mapping D (snd (register_mapping D t A B state metadata)) A B state metadata =
         (Inr \<lparr>flags = replicate (mt_number_of_types D) \<lparr>reserve = 0, commit = 0\<rparr>\<rparr>,
          snd (register_mapping D t A B state metadata))"
proof -
  define target where "target = target_of D state metadata"
  define a where "a = resolve_left D A target t"
  define b where "b = resolve_right D B target t"
  define L where "L = filter (\<lambda>n. fst n < A) t"
  define R where "R = filter (\<lambda>n. B < fst n) t"
  define t' where "t' = snd (register_mapping D t A B state metadata)"
  define s0 where "s0 = last_out (released D) L"
  from inv have srt: "sorted_wrt (\<lambda>m n. fst m < fst n) t"
    and ch: "chain (released D) t" and nn: "\<forall>n \<in> set t. \<not> is_noop (snd n)"
    by (simp_all add: tree_invariant_def)
  have shape: "t' = L @ node_unless_noop A a @ node_unless_noop B b @ R"
    unfolding t'_def L_def R_def a_def b_def target_def
    by (rule register_mapping_tree [OF AB nn])
  have "tree_invariant D t'"
    unfolding t'_def by (rule tree_invariant_register_mapping [OF inv])
  then have nn': "\<forall>n \<in> set t'. \<not> is_noop (snd n)"
    by (simp add: tree_invariant_def)
  have kL: "fst n < A" if "n \<in> set L" for n using that by (simp add: L_def)
  have kR: "B < fst n" if "n \<in> set R" for n using that by (simp add: R_def)
  have kLB: "fst n < B" if "n \<in> set L" for n using kL [OF that] AB by simp
  have kRA: "A < fst n" if "n \<in> set R" for n using kR [OF that] AB by simp
  have nBA: "\<not> B < A" "\<not> B \<le> A" "A \<le> B" "A \<noteq> B" "B \<noteq> A" using AB by simp_all
  have oa: "out_state a = target" by (simp add: a_def out_resolve_left)
  have ia: "same_state s0 (in_state a)"
    unfolding s0_def L_def a_def by (rule in_resolve_left [OF srt ch])
  have b: "b = \<lparr>in_state = target, out_state = state_at D B t\<rparr>"
    by (simp add: b_def resolve_right_def)
  have s0_target: "same_state s0 target" if "is_noop a"
    using that ia oa same_state_trans by (simp add: is_noop_same_state) blast
  have f1: "filter (\<lambda>n. fst n < A) t' = L"
    unfolding shape
    by (subst filter_parts [where pl = True and pr = False])
      (use kL kRA nBA in \<open>auto simp: node_unless_noop_def dest: kRA\<close>)
  have f2: "filter (\<lambda>n. B < fst n) t' = R"
    unfolding shape
    by (subst filter_parts [where pl = False and pr = True])
      (use kLB kR nBA in \<open>auto simp: node_unless_noop_def dest: kLB\<close>)
  have f3: "filter (\<lambda>n. fst n \<le> A) t' = L @ node_unless_noop A a"
    unfolding shape
    by (subst filter_parts [where pl = True and pr = False])
      (use kL kRA nBA in \<open>auto simp: node_unless_noop_def dest: kL kRA\<close>)
  have f4: "filter (\<lambda>n. fst n \<le> B) t' = L @ node_unless_noop A a @ node_unless_noop B b"
    unfolding shape
    by (subst filter_parts [where pl = True and pr = False])
      (use kLB kR nBA in \<open>auto simp: node_unless_noop_def dest: kLB kR\<close>)
  have f5: "filter (\<lambda>n. fst n = A) t' = node_unless_noop A a"
    unfolding shape
    by (subst filter_parts [where pl = False and pr = False])
      (use kL kRA nBA in \<open>auto simp: node_unless_noop_def dest: kL kRA\<close>)
  have f6: "interior A B t' = []"
    unfolding shape interior_def
    by (subst filter_parts [where pl = False and pr = False])
      (use kL kR nBA in \<open>auto simp: node_unless_noop_def dest: kL kR\<close>)
  have sA: "state_at D A t' = (if is_noop a then s0 else target)"
    by (simp add: state_at_last_out f3 last_out_append node_unless_noop_def last_out_Nil
        last_out_Cons s0_def oa)
  have sA_target: "same_state (state_at D A t') target"
    by (simp add: sA s0_target same_state_refl)
  have sB: "state_at D B t' =
      (if is_noop b then (if is_noop a then s0 else target) else state_at D B t)"
    by (simp add: state_at_last_out f4 last_out_append node_unless_noop_def last_out_Nil
        last_out_Cons s0_def oa b)
  have fk: "find_key A t' = (if is_noop a then None else Some a)"
    by (simp add: find_key_def f5 node_unless_noop_def)
  have rl: "node_unless_noop A (resolve_left D A target t') = node_unless_noop A a"
  proof (cases "is_noop a")
    case True
    then have "is_noop \<lparr>in_state = s0, out_state = target\<rparr>"
      using s0_target by (simp add: same_state_def)
    with True show ?thesis
      by (simp add: resolve_left_def fk sA node_unless_noop_def)
  next
    case False
    have "a\<lparr>out_state := target\<rparr> = a" using oa by simp
    with False show ?thesis by (simp add: resolve_left_def fk)
  qed
  have rr: "node_unless_noop B (resolve_right D B target t') = node_unless_noop B b"
  proof (cases "is_noop b")
    case True
    have "same_state target (if is_noop a then s0 else target)"
      using s0_target by (simp add: same_state_refl same_state_sym)
    then have "is_noop \<lparr>in_state = target, out_state = (if is_noop a then s0 else target)\<rparr>"
      by (simp add: same_state_def)
    with True show ?thesis
      by (simp add: resolve_right_def sB node_unless_noop_def)
  next
    case False
    then show ?thesis by (simp add: resolve_right_def sB b)
  qed
  have acc: "accounting D A B target t' =
      \<lparr>flags = replicate (mt_number_of_types D) \<lparr>reserve = 0, commit = 0\<rparr>\<rparr>"
    unfolding accounting_def f6 zero_table
    by (simp only: overwritten.simps fold_simps prod.case contribute_cancel [OF sA_target])
  have "snd (register_mapping D t' A B state metadata) =
      L @ node_unless_noop A a @ node_unless_noop B b @ R"
    unfolding register_mapping_tree [OF AB nn', of D state metadata] target_def [symmetric]
      f1 f2 rl rr ..
  then have tree: "snd (register_mapping D t' A B state metadata) = t'"
    by (simp only: shape)
  have "fst (register_mapping D t' A B state metadata) = Inr (accounting D A B target t')"
    using AB by (simp add: register_mapping_def Let_def target_def)
  with acc tree show ?thesis
    unfolding t'_def [symmetric] by (simp add: prod_eq_iff)
qed

text \<open>C2: \<open>register_mapping\<close> is idempotent. For every state of the tree (every tree that
  calls of \<open>register_mapping\<close> build from the empty tree), every range \<open>[A, B)\<close> with
  \<open>A < B\<close>, every state type and every attribution, the call succeeds, and a second call
  with the same arguments right after it returns a \<open>SummaryDiff\<close> whose reserve and commit
  entries are all zero and leaves the tree with the keys and values it had after the first
  call.\<close>

theorem register_mapping_idempotent:
  assumes "reachable D tree" and "A < B"
  shows "\<exists>delta tree'.
           register_mapping D tree A B state metadata = (Inr delta, tree') \<and>
           register_mapping D tree' A B state metadata =
             (Inr \<lparr>flags = replicate (mt_number_of_types D) \<lparr>reserve = 0, commit = 0\<rparr>\<rparr>, tree')"
proof -
  from assms(1) have inv: "tree_invariant D tree" by (rule reachable_tree_invariant)
  have "register_mapping D tree A B state metadata =
      (Inr (accounting D A B (target_of D state metadata) tree),
       snd (register_mapping D tree A B state metadata))"
    using assms(2) by (simp add: register_mapping_def Let_def)
  with second_register_mapping [OF inv assms(2), of state metadata] show ?thesis
    by blast
qed

theorem register_mapping_idempotent_witness:
  "reachable \<lparr>StackIndex_default = 0 :: nat, mtNone = 3, mt_number_of_types = 4\<rparr>
     [(0, \<lparr>in_state = \<lparr>type_flag = (2, 3), sidx = 0\<rparr>,
           out_state = \<lparr>type_flag = (0, 0), sidx = 7\<rparr>\<rparr>),
      (100, \<lparr>in_state = \<lparr>type_flag = (0, 0), sidx = 7\<rparr>,
             out_state = \<lparr>type_flag = (2, 3), sidx = 0\<rparr>\<rparr>)] \<and>
   (40 :: position) < 60 \<and>
   register_mapping \<lparr>StackIndex_default = 0 :: nat, mtNone = 3, mt_number_of_types = 4\<rparr>
     [(0, \<lparr>in_state = \<lparr>type_flag = (2, 3), sidx = 0\<rparr>,
           out_state = \<lparr>type_flag = (0, 0), sidx = 7\<rparr>\<rparr>),
      (100, \<lparr>in_state = \<lparr>type_flag = (0, 0), sidx = 7\<rparr>,
             out_state = \<lparr>type_flag = (2, 3), sidx = 0\<rparr>\<rparr>)]
     40 60 Committed \<lparr>stack_idx = 9, flag = 1\<rparr> =
   (Inr \<lparr>flags = [\<lparr>reserve = - 20, commit = 0\<rparr>, \<lparr>reserve = 20, commit = 20\<rparr>,
                  \<lparr>reserve = 0, commit = 0\<rparr>, \<lparr>reserve = 0, commit = 0\<rparr>]\<rparr>,
    [(0, \<lparr>in_state = \<lparr>type_flag = (2, 3), sidx = 0\<rparr>,
          out_state = \<lparr>type_flag = (0, 0), sidx = 7\<rparr>\<rparr>),
     (40, \<lparr>in_state = \<lparr>type_flag = (0, 0), sidx = 7\<rparr>,
           out_state = \<lparr>type_flag = (1, 1), sidx = 9\<rparr>\<rparr>),
     (60, \<lparr>in_state = \<lparr>type_flag = (1, 1), sidx = 9\<rparr>,
           out_state = \<lparr>type_flag = (0, 0), sidx = 7\<rparr>\<rparr>),
     (100, \<lparr>in_state = \<lparr>type_flag = (0, 0), sidx = 7\<rparr>,
            out_state = \<lparr>type_flag = (2, 3), sidx = 0\<rparr>\<rparr>)]) \<and>
   register_mapping \<lparr>StackIndex_default = 0 :: nat, mtNone = 3, mt_number_of_types = 4\<rparr>
     [(0, \<lparr>in_state = \<lparr>type_flag = (2, 3), sidx = 0\<rparr>,
           out_state = \<lparr>type_flag = (0, 0), sidx = 7\<rparr>\<rparr>),
      (40, \<lparr>in_state = \<lparr>type_flag = (0, 0), sidx = 7\<rparr>,
            out_state = \<lparr>type_flag = (1, 1), sidx = 9\<rparr>\<rparr>),
      (60, \<lparr>in_state = \<lparr>type_flag = (1, 1), sidx = 9\<rparr>,
            out_state = \<lparr>type_flag = (0, 0), sidx = 7\<rparr>\<rparr>),
      (100, \<lparr>in_state = \<lparr>type_flag = (0, 0), sidx = 7\<rparr>,
             out_state = \<lparr>type_flag = (2, 3), sidx = 0\<rparr>\<rparr>)]
     40 60 Committed \<lparr>stack_idx = 9, flag = 1\<rparr> =
   (Inr \<lparr>flags = replicate 4 \<lparr>reserve = 0, commit = 0\<rparr>\<rparr>,
    [(0, \<lparr>in_state = \<lparr>type_flag = (2, 3), sidx = 0\<rparr>,
          out_state = \<lparr>type_flag = (0, 0), sidx = 7\<rparr>\<rparr>),
     (40, \<lparr>in_state = \<lparr>type_flag = (0, 0), sidx = 7\<rparr>,
           out_state = \<lparr>type_flag = (1, 1), sidx = 9\<rparr>\<rparr>),
     (60, \<lparr>in_state = \<lparr>type_flag = (1, 1), sidx = 9\<rparr>,
           out_state = \<lparr>type_flag = (0, 0), sidx = 7\<rparr>\<rparr>),
     (100, \<lparr>in_state = \<lparr>type_flag = (0, 0), sidx = 7\<rparr>,
            out_state = \<lparr>type_flag = (2, 3), sidx = 0\<rparr>\<rparr>)])"
proof -
  let ?D = "\<lparr>StackIndex_default = 0 :: nat, mtNone = 3, mt_number_of_types = 4\<rparr>"
  let ?T1 = "[(0, \<lparr>in_state = \<lparr>type_flag = (2, 3), sidx = 0 :: nat\<rparr>,
                  out_state = \<lparr>type_flag = (0, 0), sidx = 7\<rparr>\<rparr>),
             (100 :: position, \<lparr>in_state = \<lparr>type_flag = (0, 0), sidx = 7\<rparr>,
                    out_state = \<lparr>type_flag = (2, 3), sidx = 0\<rparr>\<rparr>)]"
  have first: "register_mapping ?D [] 0 100 Reserved \<lparr>stack_idx = 7, flag = 0\<rparr> =
      (Inr \<lparr>flags = [\<lparr>reserve = 100, commit = 0\<rparr>, \<lparr>reserve = 0, commit = 0\<rparr>,
                     \<lparr>reserve = 0, commit = 0\<rparr>, \<lparr>reserve = 0, commit = 0\<rparr>]\<rparr>, ?T1)"
    by code_simp
  have r: "reachable ?D ?T1"
    by (rule reachable.step [OF reachable.init first])
  have lt: "(40 :: position) < 60" by simp
  have second: "register_mapping ?D ?T1 40 60 Committed \<lparr>stack_idx = 9, flag = 1\<rparr> =
      (Inr \<lparr>flags = [\<lparr>reserve = - 20, commit = 0\<rparr>, \<lparr>reserve = 20, commit = 20\<rparr>,
                     \<lparr>reserve = 0, commit = 0\<rparr>, \<lparr>reserve = 0, commit = 0\<rparr>]\<rparr>,
       [(0, \<lparr>in_state = \<lparr>type_flag = (2, 3), sidx = 0\<rparr>,
             out_state = \<lparr>type_flag = (0, 0), sidx = 7\<rparr>\<rparr>),
        (40, \<lparr>in_state = \<lparr>type_flag = (0, 0), sidx = 7\<rparr>,
              out_state = \<lparr>type_flag = (1, 1), sidx = 9\<rparr>\<rparr>),
        (60, \<lparr>in_state = \<lparr>type_flag = (1, 1), sidx = 9\<rparr>,
              out_state = \<lparr>type_flag = (0, 0), sidx = 7\<rparr>\<rparr>),
        (100, \<lparr>in_state = \<lparr>type_flag = (0, 0), sidx = 7\<rparr>,
               out_state = \<lparr>type_flag = (2, 3), sidx = 0\<rparr>\<rparr>)])"
    by code_simp
  from register_mapping_idempotent [OF r lt, of Committed "\<lparr>stack_idx = 9, flag = 1\<rparr>"]
  obtain delta tree' where
    1: "register_mapping ?D ?T1 40 60 Committed \<lparr>stack_idx = 9, flag = 1\<rparr> = (Inr delta, tree')"
    and 2: "register_mapping ?D tree' 40 60 Committed \<lparr>stack_idx = 9, flag = 1\<rparr> =
      (Inr \<lparr>flags = replicate (mt_number_of_types ?D) \<lparr>reserve = 0, commit = 0\<rparr>\<rparr>, tree')"
    by blast
  from 1 second have "tree' =
       [(0, \<lparr>in_state = \<lparr>type_flag = (2, 3), sidx = 0\<rparr>,
             out_state = \<lparr>type_flag = (0, 0), sidx = 7\<rparr>\<rparr>),
        (40, \<lparr>in_state = \<lparr>type_flag = (0, 0), sidx = 7\<rparr>,
              out_state = \<lparr>type_flag = (1, 1), sidx = 9\<rparr>\<rparr>),
        (60, \<lparr>in_state = \<lparr>type_flag = (1, 1), sidx = 9\<rparr>,
              out_state = \<lparr>type_flag = (0, 0), sidx = 7\<rparr>\<rparr>),
        (100, \<lparr>in_state = \<lparr>type_flag = (0, 0), sidx = 7\<rparr>,
               out_state = \<lparr>type_flag = (2, 3), sidx = 0\<rparr>\<rparr>)]"
    by simp
  with 2 have third: "register_mapping ?D
       [(0, \<lparr>in_state = \<lparr>type_flag = (2, 3), sidx = 0\<rparr>,
             out_state = \<lparr>type_flag = (0, 0), sidx = 7\<rparr>\<rparr>),
        (40, \<lparr>in_state = \<lparr>type_flag = (0, 0), sidx = 7\<rparr>,
              out_state = \<lparr>type_flag = (1, 1), sidx = 9\<rparr>\<rparr>),
        (60, \<lparr>in_state = \<lparr>type_flag = (1, 1), sidx = 9\<rparr>,
              out_state = \<lparr>type_flag = (0, 0), sidx = 7\<rparr>\<rparr>),
        (100, \<lparr>in_state = \<lparr>type_flag = (0, 0), sidx = 7\<rparr>,
               out_state = \<lparr>type_flag = (2, 3), sidx = 0\<rparr>\<rparr>)]
       40 60 Committed \<lparr>stack_idx = 9, flag = 1\<rparr> =
      (Inr \<lparr>flags = replicate 4 \<lparr>reserve = 0, commit = 0\<rparr>\<rparr>,
       [(0, \<lparr>in_state = \<lparr>type_flag = (2, 3), sidx = 0\<rparr>,
             out_state = \<lparr>type_flag = (0, 0), sidx = 7\<rparr>\<rparr>),
        (40, \<lparr>in_state = \<lparr>type_flag = (0, 0), sidx = 7\<rparr>,
              out_state = \<lparr>type_flag = (1, 1), sidx = 9\<rparr>\<rparr>),
        (60, \<lparr>in_state = \<lparr>type_flag = (1, 1), sidx = 9\<rparr>,
              out_state = \<lparr>type_flag = (0, 0), sidx = 7\<rparr>\<rparr>),
        (100, \<lparr>in_state = \<lparr>type_flag = (0, 0), sidx = 7\<rparr>,
               out_state = \<lparr>type_flag = (2, 3), sidx = 0\<rparr>\<rparr>)])"
    by simp
  from r lt second third show ?thesis by (intro conjI)
qed

end
